theory Spec2Isabelle
  imports Main "HOL-Library.Word"
begin

section \<open>The monitor cache of the pva2pva gateway (p2pApp/moncache.cpp)\<close>

text \<open>
  One \<open>MonitorCacheEntry\<close> holds one upstream subscription and fans its updates out to
  the \<open>MonitorUser\<close> objects attached to it. The C++ objects are reached through shared
  pointers, and several claims are about which object a pointer designates, so the model
  keeps an explicit store: an address is a natural number, a nullable pointer is an
  \<open>option\<close>, and the objects that the code writes through a pointer
  (\<open>MonitorElement\<close>, \<open>BitSet\<close>, \<open>PVStructure\<close>) live in maps from addresses.

  The locks (\<open>Guard G(...)\<close>) are not modelled: every function below is one
  uninterrupted call. A requester callback is recorded in the returned list of calls and
  does not re-enter the gateway.
\<close>

subsection \<open>Data\<close>

type_synonym addr = nat

text \<open>\<open>size_t\<close> counters are incremented with \<open>epicsAtomicIncrSizeT\<close>, which wraps;
  they are 64 bit words here (an LP64 platform).\<close>

type_synonym size_t = "64 word"

text \<open>\<open>pvd::Status\<close>: a type and a message. \<open>isSuccess\<close> is true of OK and WARNING;
  the default constructor and \<open>Status::Ok\<close> give OK with an empty message.\<close>

datatype StatusType = STATUSTYPE_OK | STATUSTYPE_WARNING | STATUSTYPE_ERROR | STATUSTYPE_FATAL

datatype Status = Status StatusType string

fun isSuccess :: "Status \<Rightarrow> bool" where
  "isSuccess (Status t m) = (t = STATUSTYPE_OK \<or> t = STATUSTYPE_WARNING)"

definition Status_Ok :: Status where
  "Status_Ok = Status STATUSTYPE_OK []"

text \<open>\<open>pvd::MonitorElement\<close>: three shared pointers. \<open>pvStructurePtr\<close> is tested for null
  by the code (through \<open>lastval\<close>), the two bit sets are dereferenced without a test.\<close>

record MonitorElement =
  pvStructurePtr :: "addr option"
  changedBitSet :: addr
  overrunBitSet :: addr

text \<open>The store. \<open>elems\<close> maps the address of a \<open>MonitorElement\<close> to its three pointers,
  \<open>bitsets\<close> the address of a \<open>BitSet\<close> to the set of its bits, \<open>structs\<close> the address of
  a \<open>PVStructure\<close> to the type descriptor it was created from (its field values are
  never read or written by this file). \<open>brk\<close> is the next address \<open>new\<close> hands out.\<close>

record store =
  elems :: "addr \<Rightarrow> MonitorElement"
  bitsets :: "addr \<Rightarrow> nat set"
  structs :: "addr \<Rightarrow> addr option"
  brk :: addr

text \<open>The calls made on a downstream requester: \<open>req->monitorConnect(status, user, structure)\<close>
  and \<open>req->monitorEvent(user)\<close>. The first argument is the requester's address, the
  user is given by its own address (\<open>weakref\<close>).\<close>

datatype callback =
  ReqMonitorConnect addr Status addr "addr option"
| ReqMonitorEvent addr addr

text \<open>\<open>MonitorUser\<close>. \<open>req\<close> is what the weak requester pointer resolves to: \<open>None\<close> once
  the requester has been released (a null shared pointer, as the tests \<open>if(req)\<close> at line
  65 and \<open>if(!req)\<close> at line 195 expect). \<open>weakref\<close> is the user's own address. \<open>filled\<close>
  and \<open>empty\<close> are the two deques of element pointers (front first), \<open>inuse\<close> the
  \<open>std::set\<close> of element pointers. The member \<open>entry\<close> is the first argument of \<open>start\<close>.\<close>

record MonitorUser =
  weakref :: addr
  req :: "addr option"
  running :: bool
  nwakeups :: size_t
  nevents :: size_t
  ndropped :: size_t
  filled :: "addr list"
  empty :: "addr list"
  inuse :: "addr set"

text \<open>\<open>MonitorCacheEntry\<close>. \<open>mon\<close> is the pointer to the upstream monitor, \<open>typedesc\<close> the
  (nullable) pointer to the type descriptor, \<open>lastval\<close> the (nullable) pointer to the
  last \<open>PVStructure\<close> seen. \<open>interested\<close> stands for the weak set of users: the list
  \<open>interested.lock_vector()\<close> returns, each user with its current state. The two
  counters of the entry carry the suffix \<open>_e\<close>, since a record field name is global. The
  members \<open>chan\<close> and \<open>done\<close> are not read by the functions modelled and are left out.\<close>

record MonitorCacheEntry =
  mon :: "addr option"
  typedesc :: "addr option"
  startresult :: Status
  lastval :: "addr option"
  interested :: "MonitorUser list"
  nwakeups_e :: size_t
  nevents_e :: size_t

text \<open>The upstream \<open>pvd::Monitor\<close> as this file uses it: its address, the status its
  \<open>start()\<close> returns, and the elements its \<open>poll()\<close> returns, in order, before it
  returns null. \<open>monitor->release(update)\<close> hands an element back and has no effect
  on the entry or its users.\<close>

record Monitor =
  ident :: addr
  start_outcome :: Status
  pending :: "MonitorElement list"

text \<open>What can go wrong inside a call: a failed \<open>assert\<close>, a call through a null
  pointer, and the \<open>std::invalid_argument\<close> thrown by \<open>release\<close>.\<close>

datatype error =
  AssertionFailed
| NullDereference
| invalid_argument string

subsection \<open>MonitorUser: construction, start, stop, destroy, poll, release\<close>

text \<open>The constructor (lines 167 to 174) clears \<open>running\<close>, \<open>nevents\<close> and \<open>ndropped\<close>
  and leaves the containers empty. It does not initialise \<open>nwakeups\<close>; \<open>weakref\<close> and
  \<open>req\<close> are set by whoever creates the user. These three are parameters here.\<close>

definition MonitorUser_new :: "addr \<Rightarrow> addr option \<Rightarrow> size_t \<Rightarrow> MonitorUser" where
  "MonitorUser_new self r w =
     \<lparr>weakref = self, req = r, running = False, nwakeups = w, nevents = 0, ndropped = 0,
      filled = [], empty = [], inuse = {}\<rparr>"

text \<open>\<open>new pvd::MonitorElement(fact->createPVStructure(typedesc))\<close>: a new structure of
  the given type, and a new element that points to it and to two new, clear bit sets.
  Returns the element's address. What the pvData library does with a null descriptor is
  not known from this file; the theorems about a successful \<open>start\<close> assume the
  descriptor to be set.\<close>

definition new_element :: "addr option \<Rightarrow> store \<Rightarrow> addr \<times> store" where
  "new_element td s =
     (let p = brk s; c = brk s + 1; v = brk s + 2; a = brk s + 3 in
      (a, s\<lparr>structs := (structs s)(p := td),
            bitsets := (bitsets s)(c := {}, v := {}),
            elems := (elems s)(a := \<lparr>pvStructurePtr = Some p, changedBitSet = c,
                                     overrunBitSet = v\<rparr>),
            brk := brk s + 4\<rparr>))"

text \<open>\<open>empty.resize(4)\<close> cuts the deque or pads it with null pointers; the loop then
  resets every slot to a new element, whatever the slot held. (So \<open>assert(!empty.empty())\<close>
  at line 223 cannot fail and is left out.)\<close>

definition resize :: "nat \<Rightarrow> addr list \<Rightarrow> addr option list" where
  "resize n xs = take n (map Some xs) @ replicate (n - length xs) None"

fun reset_all :: "addr option \<Rightarrow> addr option list \<Rightarrow> store \<Rightarrow> addr list \<times> store" where
  "reset_all td [] s = ([], s)"
| "reset_all td (slot # slots) s =
     (case new_element td s of (a, s1) \<Rightarrow>
        (case reset_all td slots s1 of (as, s2) \<Rightarrow> (a # as, s2)))"

text \<open>\<open>MonitorUser::start\<close>. Returns the status, the store, the user and the calls made
  on the requester.\<close>

definition start ::
  "MonitorCacheEntry \<Rightarrow> store \<Rightarrow> MonitorUser \<Rightarrow> Status \<times> store \<times> MonitorUser \<times> callback list"
where
  "start entry s usr =
     (case req usr of
        None \<Rightarrow> (Status STATUSTYPE_FATAL ''already dead'', s, usr, [])
      | Some r \<Rightarrow>
          if \<not> isSuccess (startresult entry) then (startresult entry, s, usr, [])
          else
            (case reset_all (typedesc entry) (resize 4 (empty usr)) s of (empty1, s1) \<Rightarrow>
               (case lastval entry of
                  None \<Rightarrow>
                    (Status_Ok, s1, usr\<lparr>empty := empty1, running := True\<rparr>, [])
                | Some lval \<Rightarrow>
                    (let elem = hd empty1;
                         s2 = s1\<lparr>elems := (elems s1)(elem := (elems s1 elem)
                                   \<lparr>pvStructurePtr := Some lval\<rparr>)\<rparr>;
                         cb = changedBitSet (elems s2 elem);
                         s3 = s2\<lparr>bitsets := (bitsets s2)(cb := insert 0 (bitsets s2 cb))\<rparr>
                     in (Status_Ok, s3,
                         usr\<lparr>filled := filled usr @ [elem], empty := tl empty1,
                             running := True\<rparr>,
                         [ReqMonitorEvent r (weakref usr)])))))"

definition stop :: "MonitorUser \<Rightarrow> Status \<times> MonitorUser" where
  "stop usr = (Status_Ok, usr\<lparr>running := False\<rparr>)"

definition destroy :: "MonitorUser \<Rightarrow> MonitorUser" where
  "destroy usr = usr\<lparr>running := False\<rparr>"

text \<open>\<open>MonitorUser::poll\<close>: the front of \<open>filled\<close>, or null.\<close>

definition poll :: "MonitorUser \<Rightarrow> addr option \<times> MonitorUser" where
  "poll usr =
     (if filled usr \<noteq> [] then
        (Some (hd (filled usr)),
         usr\<lparr>inuse := insert (hd (filled usr)) (inuse usr), filled := tl (filled usr)\<rparr>)
      else (None, usr))"

text \<open>\<open>MonitorUser::release\<close>. The exception leaves the user as it was; the user is
  returned in both cases. (A null argument is never in \<open>inuse\<close> and is treated like
  any other pointer that is not.)\<close>

definition release :: "addr \<Rightarrow> MonitorUser \<Rightarrow> (error + unit) \<times> MonitorUser" where
  "release monitorElement usr =
     (if monitorElement \<in> inuse usr then
        (Inr (), usr\<lparr>empty := empty usr @ [monitorElement],
                      inuse := inuse usr - {monitorElement}\<rparr>)
      else (Inl (invalid_argument ''Can't release MonitorElement not in use''), usr))"

subsection \<open>MonitorCacheEntry: monitorConnect and monitorEvent\<close>

text \<open>The fan-out of \<open>monitorConnect\<close>: one call per user whose requester is alive.\<close>

fun connect_all :: "Status \<Rightarrow> addr option \<Rightarrow> MonitorUser list \<Rightarrow> callback list" where
  "connect_all st structure [] = []"
| "connect_all st structure (usr # tonotify) =
     (case req usr of
        Some r \<Rightarrow> ReqMonitorConnect r st (weakref usr) structure # connect_all st structure tonotify
      | None \<Rightarrow> connect_all st structure tonotify)"


text \<open>The block of \<open>monitorEvent\<close> that runs under the user's \<open>queueLock\<close> (lines 111 to
  129): the delivery of one update to one user.\<close>

datatype outcome = Dropped | Delivered bool

definition deliver :: "MonitorElement \<Rightarrow> store \<Rightarrow> MonitorUser \<Rightarrow> outcome \<times> store \<times> MonitorUser" where
  "deliver update s usr =
     (if \<not> running usr \<or> empty usr = [] then
        (Dropped, s, usr\<lparr>ndropped := ndropped usr + 1\<rparr>)
      else
        (let notify = (filled usr = []);
             elem = hd (empty usr);
             s1 = s\<lparr>elems := (elems s)(elem := (elems s elem)
                      \<lparr>pvStructurePtr := pvStructurePtr update,
                       overrunBitSet := overrunBitSet update,
                       changedBitSet := changedBitSet update\<rparr>)\<rparr>
         in (Delivered notify, s1,
             usr\<lparr>filled := filled usr @ [elem], empty := tl (empty usr),
                 nevents := nevents usr + 1\<rparr>)))"

text \<open>The body of the loop over \<open>tonotify\<close> for one user (lines 107 to 135). The
  requester pointer taken at line 108 is used at line 134 without a test: when it is
  null the call goes through a null pointer.\<close>

definition notify_one ::
  "MonitorElement \<Rightarrow> store \<Rightarrow> MonitorUser \<Rightarrow> error + (store \<times> MonitorUser \<times> callback list)"
where
  "notify_one update s usr =
     (case deliver update s usr of
        (Delivered True, s1, usr1) \<Rightarrow>
          (case req usr of
             None \<Rightarrow> Inl NullDereference
           | Some r \<Rightarrow>
               Inr (s1, usr1\<lparr>nwakeups := nwakeups usr1 + 1\<rparr>,
                    [ReqMonitorEvent r (weakref usr)]))
      | (_, s1, usr1) \<Rightarrow> Inr (s1, usr1, []))"

fun notify_all ::
  "MonitorElement \<Rightarrow> store \<Rightarrow> MonitorUser list \<Rightarrow> error + (store \<times> MonitorUser list \<times> callback list)"
where
  "notify_all update s [] = Inr (s, [], [])"
| "notify_all update s (usr # tonotify) =
     (case notify_one update s usr of
        Inl e \<Rightarrow> Inl e
      | Inr (s1, usr1, cbs1) \<Rightarrow>
          (case notify_all update s1 tonotify of
             Inl e \<Rightarrow> Inl e
           | Inr (s2, usrs, cbs) \<Rightarrow> Inr (s2, usr1 # usrs, cbs1 @ cbs)))"

text \<open>The \<open>while((update=monitor->poll()))\<close> loop, over the elements \<open>poll()\<close> returns.
  The local counter \<open>cntpoll\<close> is never read and is left out.\<close>

fun drain ::
  "MonitorElement list \<Rightarrow> MonitorCacheEntry \<Rightarrow> store \<Rightarrow> error + (MonitorCacheEntry \<times> store \<times> callback list)"
where
  "drain [] entry s = Inr (entry, s, [])"
| "drain (update # rest) entry s =
     (let e1 = entry\<lparr>lastval := pvStructurePtr update, nevents_e := nevents_e entry + 1\<rparr> in
      case notify_all update s (interested e1) of
        Inl e \<Rightarrow> Inl e
      | Inr (s1, usrs, cbs) \<Rightarrow>
          (case drain rest (e1\<lparr>interested := usrs\<rparr>) s1 of
             Inl e \<Rightarrow> Inl e
           | Inr (e2, s2, cbs2) \<Rightarrow> Inr (e2, s2, cbs @ cbs2)))"

definition monitorEvent ::
  "Monitor \<Rightarrow> MonitorCacheEntry \<Rightarrow> store \<Rightarrow> error + (MonitorCacheEntry \<times> store \<times> callback list)"
where
  "monitorEvent monitor entry s =
     drain (pending monitor) (entry\<lparr>nwakeups_e := nwakeups_e entry + 1\<rparr>) s"

subsection \<open>Sequences of calls on one user\<close>

text \<open>The calls that move the buffers of a user: a delivery by \<open>monitorEvent\<close>, and
  the consumer's \<open>poll\<close>, \<open>release\<close>, \<open>stop\<close> and \<open>destroy\<close>. Each call is observed by
  what it returns; a \<open>poll\<close> by the pointer it returns and the element the consumer
  reads through it.\<close>

datatype op = Deliver MonitorElement | Poll | Release addr | Stop | Destroy

datatype obs =
  ODeliver MonitorElement outcome
| OPoll "(addr \<times> MonitorElement) option"
| ORelease "error + unit"
| OStop Status
| ODestroy

fun step :: "op \<Rightarrow> store \<Rightarrow> MonitorUser \<Rightarrow> obs \<times> store \<times> MonitorUser" where
  "step (Deliver update) s usr =
     (case deliver update s usr of (out, s1, usr1) \<Rightarrow> (ODeliver update out, s1, usr1))"
| "step Poll s usr =
     (case poll usr of (ret, usr1) \<Rightarrow> (OPoll (map_option (\<lambda>a. (a, elems s a)) ret), s, usr1))"
| "step (Release a) s usr =
     (case release a usr of (r, usr1) \<Rightarrow> (ORelease r, s, usr1))"
| "step Stop s usr = (case stop usr of (st, usr1) \<Rightarrow> (OStop st, s, usr1))"
| "step Destroy s usr = (ODestroy, s, destroy usr)"

fun run :: "op list \<Rightarrow> store \<Rightarrow> MonitorUser \<Rightarrow> obs list \<times> store \<times> MonitorUser" where
  "run [] s usr = ([], s, usr)"
| "run (x # xs) s usr =
     (case step x s usr of (ob, s1, usr1) \<Rightarrow>
        (case run xs s1 usr1 of (obs, s2, usr2) \<Rightarrow> (ob # obs, s2, usr2)))"

text \<open>What a sequence of observations shows: the updates that were accepted, the
  elements that were polled, the outcomes of the deliveries, the number of deliveries
  that ask for a wakeup.\<close>

fun accepted_of :: "obs list \<Rightarrow> MonitorElement list" where
  "accepted_of [] = []"
| "accepted_of (ODeliver update (Delivered n) # obs) = update # accepted_of obs"
| "accepted_of (ob # obs) = accepted_of obs"

fun polled_of :: "obs list \<Rightarrow> MonitorElement list" where
  "polled_of [] = []"
| "polled_of (OPoll (Some (a, m)) # obs) = m # polled_of obs"
| "polled_of (ob # obs) = polled_of obs"

fun outcomes_of :: "obs list \<Rightarrow> outcome list" where
  "outcomes_of [] = []"
| "outcomes_of (ODeliver update out # obs) = out # outcomes_of obs"
| "outcomes_of (ob # obs) = outcomes_of obs"

fun wakeups_of :: "obs list \<Rightarrow> nat" where
  "wakeups_of [] = 0"
| "wakeups_of (ODeliver update (Delivered True) # obs) = Suc (wakeups_of obs)"
| "wakeups_of (ob # obs) = wakeups_of obs"

text \<open>The buffers of a user, their number, and the two parts of the pool invariant:
  no buffer is in two places (or twice in a queue), and there are four of them.\<close>

definition pool :: "MonitorUser \<Rightarrow> addr set" where
  "pool usr = set (empty usr) \<union> set (filled usr) \<union> inuse usr"

definition pool_size :: "MonitorUser \<Rightarrow> nat" where
  "pool_size usr = length (empty usr) + length (filled usr) + card (inuse usr)"

definition disjoint_pool :: "MonitorUser \<Rightarrow> bool" where
  "disjoint_pool usr \<longleftrightarrow>
     distinct (empty usr @ filled usr) \<and> finite (inuse usr) \<and>
     inuse usr \<inter> set (empty usr @ filled usr) = {}"

definition pool_inv :: "MonitorUser \<Rightarrow> bool" where
  "pool_inv usr \<longleftrightarrow> disjoint_pool usr \<and> pool_size usr = 4"

text \<open>\<open>filled\<close> is not empty after any call of the sequence but the last: the sequence
  lies between two consecutive instants at which \<open>filled\<close> is empty (or inside such a
  stretch).\<close>

fun nonempty_between :: "op list \<Rightarrow> store \<Rightarrow> MonitorUser \<Rightarrow> bool" where
  "nonempty_between [] s usr = True"
| "nonempty_between [x] s usr = True"
| "nonempty_between (x # y # ys) s usr =
     (case step x s usr of (ob, s1, usr1) \<Rightarrow>
        filled usr1 \<noteq> [] \<and> nonempty_between (y # ys) s1 usr1)"

subsection \<open>Concrete states\<close>

text \<open>A store whose next free address is 100, an update whose three pointers are
  \<open>n\<close>, \<open>n + 1\<close> and \<open>n + 2\<close>, a connected entry that has seen the value at address 10,
  and a running user with four free buffers.\<close>

definition ex_store :: store where
  "ex_store = \<lparr>elems = (\<lambda>a. \<lparr>pvStructurePtr = None, changedBitSet = 0, overrunBitSet = 0\<rparr>),
               bitsets = (\<lambda>a. {}), structs = (\<lambda>a. None), brk = 100\<rparr>"

definition ex_update :: "nat \<Rightarrow> MonitorElement" where
  "ex_update n = \<lparr>pvStructurePtr = Some n, changedBitSet = n + 1, overrunBitSet = n + 2\<rparr>"

definition ex_entry :: MonitorCacheEntry where
  "ex_entry = \<lparr>mon = Some 1, typedesc = Some 2, startresult = Status_Ok, lastval = Some 10,
               interested = [], nwakeups_e = 0, nevents_e = 0\<rparr>"

definition ex_user :: MonitorUser where
  "ex_user = \<lparr>weakref = 50, req = Some 60, running = True, nwakeups = 0, nevents = 0,
              ndropped = 0, filled = [], empty = [103, 107, 111, 115], inuse = {}\<rparr>"

text \<open>Sequences of calls on that user, and six updates.\<close>

definition ex_ops :: "op list" where
  "ex_ops = [Deliver (ex_update 10), Deliver (ex_update 20), Poll, Release 103, Release 999,
             Stop, Deliver (ex_update 30), Destroy, Poll]"


definition ex_updates :: "MonitorElement list" where
  "ex_updates = [ex_update 10, ex_update 20, ex_update 30, ex_update 40, ex_update 50,
                 ex_update 60]"

definition ex_ops5 :: "op list" where
  "ex_ops5 = [Deliver (ex_update 10), Deliver (ex_update 20), Poll, Deliver (ex_update 30),
              Poll, Poll]"

text \<open>More users: one with two buffers lent out and none free, one with two free
  buffers, a saturated one, a running one whose requester is gone, and a stopped one
  whose requester is gone.\<close>

definition ex_lent :: MonitorUser where
  "ex_lent = \<lparr>weakref = 50, req = Some 60, running = True, nwakeups = 1, nevents = 3,
              ndropped = 0, filled = [107], empty = [], inuse = {103, 111}\<rparr>"

definition ex_user2 :: MonitorUser where
  "ex_user2 = \<lparr>weakref = 51, req = Some 61, running = True, nwakeups = 0, nevents = 0,
               ndropped = 0, filled = [], empty = [203, 207], inuse = {}\<rparr>"




text \<open>An upstream monitor with two updates pending, one whose \<open>start()\<close> fails, and the
  entry with different sets of users.\<close>

definition ex_monitor :: Monitor where
  "ex_monitor = \<lparr>ident = 1, start_outcome = Status_Ok, pending = [ex_update 20, ex_update 30]\<rparr>"

definition ex_entry_live :: MonitorCacheEntry where
  "ex_entry_live = ex_entry\<lparr>interested := [ex_user, ex_user2]\<rparr>"




section \<open>Properties\<close>

subsection \<open>The calls, case by case\<close>

lemma elem_overwrite:
  "(m :: MonitorElement)\<lparr>pvStructurePtr := pvStructurePtr upd, overrunBitSet := overrunBitSet upd,
      changedBitSet := changedBitSet upd\<rparr> = upd"
  by (cases m, cases upd) simp

lemma deliver_dropped:
  "\<not> running u \<or> empty u = [] \<Longrightarrow>
   deliver upd s u = (Dropped, s, u\<lparr>ndropped := ndropped u + 1\<rparr>)"
  by (simp add: deliver_def)

lemma deliver_delivered:
  "running u \<Longrightarrow> empty u \<noteq> [] \<Longrightarrow>
   deliver upd s u =
     (Delivered (filled u = []), s\<lparr>elems := (elems s)(hd (empty u) := upd)\<rparr>,
      u\<lparr>filled := filled u @ [hd (empty u)], empty := tl (empty u),
        nevents := nevents u + 1\<rparr>)"
  by (simp add: deliver_def Let_def elem_overwrite)

lemma step_Deliver_drop:
  "\<not> running u \<or> empty u = [] \<Longrightarrow>
   step (Deliver upd) s u = (ODeliver upd Dropped, s, u\<lparr>ndropped := ndropped u + 1\<rparr>)"
  by (simp add: deliver_dropped)

lemma step_Deliver_ok:
  "running u \<Longrightarrow> empty u = a # as \<Longrightarrow>
   step (Deliver upd) s u =
     (ODeliver upd (Delivered (filled u = [])), s\<lparr>elems := (elems s)(a := upd)\<rparr>,
      u\<lparr>filled := filled u @ [a], empty := as, nevents := nevents u + 1\<rparr>)"
  by (simp add: deliver_delivered)

lemma step_Poll_none:
  "filled u = [] \<Longrightarrow> step Poll s u = (OPoll None, s, u)"
  by (simp add: poll_def)

lemma step_Poll_some:
  "filled u = a # as \<Longrightarrow>
   step Poll s u =
     (OPoll (Some (a, elems s a)), s, u\<lparr>inuse := insert a (inuse u), filled := as\<rparr>)"
  by (simp add: poll_def)

lemma step_Release_ok:
  "a \<in> inuse u \<Longrightarrow>
   step (Release a) s u =
     (ORelease (Inr ()), s, u\<lparr>empty := empty u @ [a], inuse := inuse u - {a}\<rparr>)"
  by (simp add: release_def)

lemma step_Release_bad:
  "a \<notin> inuse u \<Longrightarrow>
   step (Release a) s u =
     (ORelease (Inl (invalid_argument ''Can't release MonitorElement not in use'')), s, u)"
  by (simp add: release_def)

lemma step_Stop: "step Stop s u = (OStop Status_Ok, s, u\<lparr>running := False\<rparr>)"
  by (simp add: stop_def)

lemma step_Destroy: "step Destroy s u = (ODestroy, s, u\<lparr>running := False\<rparr>)"
  by (simp add: destroy_def)

text \<open>Every call is one of eight moves of the buffers.\<close>

lemma step_cases [case_names drop fill poll_none poll_some release_ok release_bad stopped destroyed]:
  obtains
    (drop) upd where "x = Deliver upd" "\<not> running u \<or> empty u = []"
      "step x s u = (ODeliver upd Dropped, s, u\<lparr>ndropped := ndropped u + 1\<rparr>)"
  | (fill) upd a as where "x = Deliver upd" "running u" "empty u = a # as"
      "step x s u =
         (ODeliver upd (Delivered (filled u = [])), s\<lparr>elems := (elems s)(a := upd)\<rparr>,
          u\<lparr>filled := filled u @ [a], empty := as, nevents := nevents u + 1\<rparr>)"
  | (poll_none) "x = Poll" "filled u = []" "step x s u = (OPoll None, s, u)"
  | (poll_some) a as where "x = Poll" "filled u = a # as"
      "step x s u =
         (OPoll (Some (a, elems s a)), s, u\<lparr>inuse := insert a (inuse u), filled := as\<rparr>)"
  | (release_ok) a where "x = Release a" "a \<in> inuse u"
      "step x s u =
         (ORelease (Inr ()), s, u\<lparr>empty := empty u @ [a], inuse := inuse u - {a}\<rparr>)"
  | (release_bad) a where "x = Release a" "a \<notin> inuse u"
      "step x s u =
         (ORelease (Inl (invalid_argument ''Can't release MonitorElement not in use'')), s, u)"
  | (stopped) "x = Stop" "step x s u = (OStop Status_Ok, s, u\<lparr>running := False\<rparr>)"
  | (destroyed) "x = Destroy" "step x s u = (ODestroy, s, u\<lparr>running := False\<rparr>)"
proof (cases x)
  case (Deliver upd)
  show ?thesis
  proof (cases "running u \<and> empty u \<noteq> []")
    case True
    then obtain a as where "empty u = a # as" by (cases "empty u") auto
    with True Deliver fill step_Deliver_ok show ?thesis by blast
  next
    case False
    with Deliver drop step_Deliver_drop show ?thesis by blast
  qed
next
  case Poll
  show ?thesis
  proof (cases "filled u")
    case Nil
    with Poll poll_none step_Poll_none show ?thesis by blast
  next
    case (Cons a as)
    with Poll poll_some step_Poll_some show ?thesis by blast
  qed
next
  case (Release a)
  show ?thesis
  proof (cases "a \<in> inuse u")
    case True
    with Release release_ok step_Release_ok show ?thesis by blast
  next
    case False
    with Release release_bad step_Release_bad show ?thesis by blast
  qed
next
  case Stop
  with stopped step_Stop show ?thesis by blast
next
  case Destroy
  with destroyed step_Destroy show ?thesis by blast
qed

lemma step_disjoint_pool:
  assumes "disjoint_pool u" and "step x s u = (ob, s1, u1)"
  shows "disjoint_pool u1"
  using assms by (cases x s u rule: step_cases) (auto simp: disjoint_pool_def)

lemma step_pool:
  assumes "step x s u = (ob, s1, u1)"
  shows "pool u1 = pool u"
  using assms by (cases x s u rule: step_cases) (auto simp: pool_def)

lemma step_pool_size:
  assumes "disjoint_pool u" and "step x s u = (ob, s1, u1)"
  shows "pool_size u1 = pool_size u"
proof (cases x s u rule: step_cases)
  case (release_ok a)
  from assms(1) have "finite (inuse u)" by (simp add: disjoint_pool_def)
  then have c: "Suc (card (inuse u - {a})) = card (inuse u)"
    using release_ok(2) by (rule card_Suc_Diff1)
  from assms(2) release_ok have "u1 = u\<lparr>empty := empty u @ [a], inuse := inuse u - {a}\<rparr>"
    by simp
  then have "pool_size u1 = length (empty u) + length (filled u) + Suc (card (inuse u - {a}))"
    by (simp add: pool_size_def)
  then show ?thesis by (simp only: c pool_size_def)
next
  case (poll_some a as)
  with assms(1) have "a \<notin> inuse u" "finite (inuse u)"
    by (auto simp: disjoint_pool_def)
  then have "card (insert a (inuse u)) = Suc (card (inuse u))" by simp
  with assms(2) poll_some show ?thesis by (simp add: pool_size_def)
qed (use assms in \<open>auto simp: pool_size_def destroy_def\<close>)

lemma run_preserves:
  "disjoint_pool u \<Longrightarrow> run ops s u = (obs, s', u') \<Longrightarrow>
   disjoint_pool u' \<and> pool u' = pool u \<and> pool_size u' = pool_size u"
proof (induction ops arbitrary: s u obs)
  case Nil
  then show ?case by simp
next
  case (Cons x xs)
  obtain ob s1 u1 where st: "step x s u = (ob, s1, u1)" by (cases "step x s u") auto
  obtain obs1 s2 u2 where r0: "run xs s1 u1 = (obs1, s2, u2)" by (cases "run xs s1 u1") auto
  from Cons.prems(2) st r0 have "s2 = s'" "u2 = u'" by simp_all
  with r0 have r: "run xs s1 u1 = (obs1, s', u')" by simp
  have d1: "disjoint_pool u1" using step_disjoint_pool [OF Cons.prems(1) st] .
  from Cons.IH [OF d1 r] step_pool [OF st] step_pool_size [OF Cons.prems(1) st]
  show ?case by simp
qed

lemma new_element_simps:
  "fst (new_element td s) = brk s + 3"
  "brk (snd (new_element td s)) = brk s + 4"
  by (simp_all add: new_element_def Let_def)

lemma reset_all_Cons:
  "reset_all td (slot # slots) s =
     (fst (new_element td s) # fst (reset_all td slots (snd (new_element td s))),
      snd (reset_all td slots (snd (new_element td s))))"
  by (simp split: prod.splits)

lemma reset_all_fst:
  "fst (reset_all td slots s) = map (\<lambda>i. brk s + 4 * i + 3) [0..<length slots]"
proof (induction slots arbitrary: s)
  case Nil
  show ?case by simp
next
  case (Cons slot slots)
  have "fst (reset_all td (slot # slots) s) =
          (brk s + 3) # fst (reset_all td slots (snd (new_element td s)))"
    by (simp only: reset_all_Cons new_element_simps fst_conv)
  also have "\<dots> = (brk s + 3) # map (\<lambda>i. brk s + 4 + 4 * i + 3) [0..<length slots]"
    by (simp add: Cons.IH new_element_simps)
  also have "\<dots> = map (\<lambda>i. brk s + 4 * i + 3) [0..<length (slot # slots)]"
    by (simp add: upt_conv_Cons map_Suc_upt [symmetric] del: upt_Suc)
  finally show ?case .
qed

lemma resize_length: "length (resize n xs) = n"
  by (simp add: resize_def)

lemma reset_all_resize4:
  "fst (reset_all td (resize 4 xs) s) = [brk s + 3, brk s + 7, brk s + 11, brk s + 15]"
  by (simp add: reset_all_fst resize_length upt_conv_Cons)

lemma reset_all_brk:
  "brk (snd (reset_all td slots s)) = brk s + 4 * length slots"
proof (induction slots arbitrary: s)
  case Nil
  show ?case by simp
next
  case (Cons slot slots)
  show ?case by (simp only: reset_all_Cons snd_conv Cons.IH new_element_simps) simp
qed

lemma start_dead:
  "req u = None \<Longrightarrow> start e s u = (Status STATUSTYPE_FATAL ''already dead'', s, u, [])"
  by (simp add: start_def)

lemma start_failed:
  "req u = Some r \<Longrightarrow> \<not> isSuccess (startresult e) \<Longrightarrow> start e s u = (startresult e, s, u, [])"
  by (simp add: start_def)

lemma start_plain:
  assumes "req u = Some r" and "isSuccess (startresult e)" and "lastval e = None"
  shows "start e s u =
           (Status_Ok, snd (reset_all (typedesc e) (resize 4 (empty u)) s),
            u\<lparr>empty := [brk s + 3, brk s + 7, brk s + 11, brk s + 15], running := True\<rparr>, [])"
  using assms by (simp add: start_def case_prod_beta reset_all_resize4)

lemma start_seeded:
  assumes "req u = Some r" and "isSuccess (startresult e)" and "lastval e = Some p"
  shows "\<exists>s'. start e s u =
           (Status_Ok, s',
            u\<lparr>filled := filled u @ [brk s + 3], empty := [brk s + 7, brk s + 11, brk s + 15],
              running := True\<rparr>,
            [ReqMonitorEvent r (weakref u)])
         \<and> pvStructurePtr (elems s' (brk s + 3)) = Some p \<and> brk s' = brk s + 16"
  using assms
  by (simp add: start_def case_prod_beta reset_all_resize4 Let_def reset_all_brk resize_length)

lemma run_Cons_split:
  assumes "run (x # xs) s u = (obs, s', u')"
  obtains ob s1 u1 obs1 where "step x s u = (ob, s1, u1)" "run xs s1 u1 = (obs1, s', u')"
    "obs = ob # obs1"
proof -
  obtain ob s1 u1 where st: "step x s u = (ob, s1, u1)" by (cases "step x s u") auto
  obtain obs1 s2 u2 where r0: "run xs s1 u1 = (obs1, s2, u2)" by (cases "run xs s1 u1") auto
  from assms st r0 have "s2 = s'" "u2 = u'" "obs = ob # obs1" by simp_all
  with st r0 that show ?thesis by simp
qed

lemma run_fifo:
  "disjoint_pool u \<Longrightarrow> run ops s u = (obs, s', u') \<Longrightarrow>
   polled_of obs @ map (elems s') (filled u') = map (elems s) (filled u) @ accepted_of obs"
proof (induction ops arbitrary: s u obs)
  case Nil
  then show ?case by simp
next
  case (Cons x xs)
  from Cons.prems(2) obtain ob s1 u1 obs1 where
    st: "step x s u = (ob, s1, u1)" and r: "run xs s1 u1 = (obs1, s', u')" and
    o: "obs = ob # obs1"
    by (rule run_Cons_split)
  have d1: "disjoint_pool u1" using step_disjoint_pool [OF Cons.prems(1) st] .
  have IH: "polled_of obs1 @ map (elems s') (filled u') =
              map (elems s1) (filled u1) @ accepted_of obs1"
    using Cons.IH [OF d1 r] .
  show ?case
  proof (cases x s u rule: step_cases)
    case (fill upd a as)
    from st fill(4) have eq: "ob = ODeliver upd (Delivered (filled u = []))"
      "s1 = s\<lparr>elems := (elems s)(a := upd)\<rparr>" "filled u1 = filled u @ [a]"
      by auto
    from Cons.prems(1) fill(3) have "a \<notin> set (filled u)"
      by (auto simp: disjoint_pool_def)
    then have "map (elems s1) (filled u1) = map (elems s) (filled u) @ [upd]"
      by (simp add: eq)
    with IH show ?thesis by (simp add: o eq(1))
  next
    case (poll_some a as)
    from st poll_some(3) have eq: "ob = OPoll (Some (a, elems s a))" "s1 = s" "filled u1 = as"
      by auto
    with IH poll_some(2) show ?thesis by (simp add: o)
  qed (use IH st o in \<open>auto simp: destroy_def\<close>)
qed

subsection \<open>The buffer pool\<close>

text \<open>\<open>start\<close> on a user that holds no filled and no lent buffer (a new user) leaves
  it with four buffers, all different.\<close>

lemma start_new_pool_inv:
  assumes "req u = Some r" and "isSuccess (startresult e)" and "filled u = []" and "inuse u = {}"
  shows "case start e s u of (st, s1, u1, cbs) \<Rightarrow> pool_inv u1"
proof (cases "lastval e")
  case None
  from start_plain [OF assms(1,2) None, of s] assms(3,4) show ?thesis
    by (simp add: pool_inv_def disjoint_pool_def pool_size_def)
next
  case (Some p)
  from start_seeded [OF assms(1,2) Some, of s] assms(3,4) show ?thesis
    by (auto simp: pool_inv_def disjoint_pool_def pool_size_def)
qed

text \<open>C1. A user whose three collections are pairwise disjoint, without repetition, and
  hold four buffers together keeps that through every sequence of deliveries and of
  \<open>poll\<close>, \<open>release\<close>, \<open>stop\<close> and \<open>destroy\<close> calls, and the set of its buffers stays
  the same: a call only moves a buffer. \<open>start\<close> puts a new user in such a state.\<close>

theorem C1_pool_invariant:
  "(pool_inv u \<longrightarrow>
      (case run ops s u of (obs, s', u') \<Rightarrow> pool_inv u' \<and> pool u' = pool u)) \<and>
   (req u = Some r \<and> isSuccess (startresult e) \<and> typedesc e \<noteq> None \<and>
    filled u = [] \<and> inuse u = {} \<longrightarrow>
      (case start e s u of (st, s1, u1, cbs) \<Rightarrow> pool_inv u1))"
proof (intro conjI impI)
  assume inv: "pool_inv u"
  obtain obs s' u' where r: "run ops s u = (obs, s', u')" by (cases "run ops s u") auto
  from inv have "disjoint_pool u" by (simp add: pool_inv_def)
  from run_preserves [OF this r] inv have "pool_inv u' \<and> pool u' = pool u"
    by (simp add: pool_inv_def)
  with r show "case run ops s u of (obs, s', u') \<Rightarrow> pool_inv u' \<and> pool u' = pool u"
    by simp
next
  assume "req u = Some r \<and> isSuccess (startresult e) \<and> typedesc e \<noteq> None \<and>
    filled u = [] \<and> inuse u = {}"
  then have "req u = Some r" "isSuccess (startresult e)" "filled u = []" "inuse u = {}"
    by simp_all
  then show "case start e s u of (st, s1, u1, cbs) \<Rightarrow> pool_inv u1"
    by (rule start_new_pool_inv)
qed

text \<open>The running user with four free buffers, through two deliveries, a poll, a good
  and a bad release, a stop, a refused delivery, a destroy and a poll.\<close>

theorem C1_pool_invariant_witness:
  "pool_inv ex_user \<and>
   (case run ex_ops ex_store ex_user of (obs, s', u') \<Rightarrow>
      pool_inv u' \<and> pool u' = pool ex_user \<and>
      empty u' = [111, 115, 103] \<and> filled u' = [] \<and> inuse u' = {107}) \<and>
   (case start ex_entry ex_store ex_user of (st, s1, u1, cbs) \<Rightarrow> pool_inv u1)"
proof -
  have inv: "pool_inv ex_user"
    by (simp add: pool_inv_def disjoint_pool_def pool_size_def ex_user_def)
  have pre: "req ex_user = Some 60 \<and> isSuccess (startresult ex_entry) \<and>
             typedesc ex_entry \<noteq> None \<and>
             filled ex_user = [] \<and> inuse ex_user = {}"
    by (simp add: ex_user_def ex_entry_def Status_Ok_def)
  have ev: "case run ex_ops ex_store ex_user of (obs, s', u') \<Rightarrow>
              empty u' = [111, 115, 103] \<and> filled u' = [] \<and> inuse u' = {107}"
    by (simp add: ex_ops_def ex_user_def ex_store_def deliver_def poll_def release_def
        stop_def destroy_def Let_def)
  from C1_pool_invariant [where u = ex_user and ops = ex_ops and s = ex_store and r = 60 and e = ex_entry] inv pre ev
  show ?thesis by (auto split: prod.splits)
qed

subsection \<open>Order of delivery\<close>



subsection \<open>A saturated user\<close>

lemma run_append:
  "run (xs @ ys) s u =
     (case run xs s u of (obs1, s1, u1) \<Rightarrow>
        (case run ys s1 u1 of (obs2, s2, u2) \<Rightarrow> (obs1 @ obs2, s2, u2)))"
  by (induction xs arbitrary: s u) (auto split: prod.splits)

lemma outcomes_of_append: "outcomes_of (xs @ ys) = outcomes_of xs @ outcomes_of ys"
  by (induction xs rule: outcomes_of.induct) auto

lemma run_Cons_eq:
  "step x s u = (ob, s1, u1) \<Longrightarrow> run xs s1 u1 = (obs, s2, u2) \<Longrightarrow>
   run (x # xs) s u = (ob # obs, s2, u2)"
  by simp

lemma run_drops:
  "empty u = [] \<Longrightarrow>
   run (map Deliver us) s u =
     (map (\<lambda>upd. ODeliver upd Dropped) us, s, u\<lparr>ndropped := ndropped u + of_nat (length us)\<rparr>)"
proof (induction us arbitrary: u)
  case Nil
  show ?case by simp
next
  case (Cons upd us)
  let ?u1 = "u\<lparr>ndropped := ndropped u + 1\<rparr>"
  have e: "empty ?u1 = []" using Cons.prems by simp
  have st: "step (Deliver upd) s u = (ODeliver upd Dropped, s, ?u1)"
    by (rule step_Deliver_drop) (simp add: Cons.prems)
  have u: "?u1\<lparr>ndropped := ndropped ?u1 + of_nat (length us)\<rparr> =
           u\<lparr>ndropped := ndropped u + of_nat (length (upd # us))\<rparr>"
    by (simp add: add.assoc)
  from run_Cons_eq [OF st Cons.IH [OF e]] show ?case
    by (simp only: u list.map)
qed

lemma outcomes_of_drops:
  "outcomes_of (map (\<lambda>upd. ODeliver upd Dropped) us) = replicate (length us) Dropped"
  by (induction us) auto

lemma run_fills:
  "running u \<Longrightarrow> length us \<le> length (empty u) \<Longrightarrow> run (map Deliver us) s u = (obs, s', u') \<Longrightarrow>
   outcomes_of obs =
     (if us = [] then [] else Delivered (filled u = []) # replicate (length us - 1) (Delivered False)) \<and>
   accepted_of obs = us \<and> polled_of obs = [] \<and>
   filled u' = filled u @ take (length us) (empty u) \<and>
   empty u' = drop (length us) (empty u) \<and> inuse u' = inuse u \<and>
   ndropped u' = ndropped u \<and> running u'"
proof (induction us arbitrary: s u obs)
  case Nil
  then show ?case by simp
next
  case (Cons upd us)
  from Cons.prems(2) obtain a as where e: "empty u = a # as" by (cases "empty u") auto
  let ?s1 = "s\<lparr>elems := (elems s)(a := upd)\<rparr>"
  let ?u1 = "u\<lparr>filled := filled u @ [a], empty := as, nevents := nevents u + 1\<rparr>"
  have st: "step (Deliver upd) s u = (ODeliver upd (Delivered (filled u = [])), ?s1, ?u1)"
    using step_Deliver_ok [OF Cons.prems(1) e] .
  obtain obs1 where r: "run (map Deliver us) ?s1 ?u1 = (obs1, s', u')"
    and o: "obs = ODeliver upd (Delivered (filled u = [])) # obs1"
    using Cons.prems(3) st by (auto split: prod.splits)
  have "running ?u1" "length us \<le> length (empty ?u1)"
    using Cons.prems(1,2) e by simp_all
  from Cons.IH [OF this r] show ?case
    by (cases us) (simp_all add: o e)
qed


lemma unat_add_of_nat:
  "unat (w :: 64 word) + k < 2 ^ 64 \<Longrightarrow> unat (w + of_nat k) = unat w + k"
  by (simp add: unat_word_ariths unat_of_nat take_bit_eq_mod)

text \<open>C4. A running user with \<open>N\<close> free buffers, all different, and nothing filled or
  lent receives \<open>N + K\<close> updates with no poll or release in between. The first \<open>N\<close> are
  accepted (the first asks for a wakeup) and sit in \<open>filled\<close> in order, in the buffers
  of the free queue in its order; the last \<open>K\<close> are dropped. The dropped counter has
  gone up by \<open>K\<close> (as a 64 bit word, and as a number when that does not wrap). In the
  state reached, a further delivery returns at once as dropped and changes the dropped
  counter only.\<close>

theorem C4_saturation:
  assumes "running u" and "filled u = []" and "inuse u = {}" and "distinct (empty u)"
    and "length (empty u) = N" and "length us = N + K"
  shows "case run (map Deliver us) s u of (obs, s', u') \<Rightarrow>
           outcomes_of obs =
             (if N = 0 then [] else Delivered True # replicate (N - 1) (Delivered False))
             @ replicate K Dropped \<and>
           filled u' = empty u \<and> map (elems s') (filled u') = take N us \<and>
           empty u' = [] \<and> inuse u' = {} \<and>
           ndropped u' = ndropped u + of_nat K \<and>
           (unat (ndropped u) + K < 2 ^ 64 \<longrightarrow> unat (ndropped u') = unat (ndropped u) + K) \<and>
           (\<forall>upd. deliver upd s' u' = (Dropped, s', u'\<lparr>ndropped := ndropped u' + 1\<rparr>))"
proof -
  let ?us1 = "take N us" and ?us2 = "drop N us"
  have len: "length ?us1 = N" "length ?us2 = K" using assms(6) by simp_all
  obtain obs1 s1 u1 where r1: "run (map Deliver ?us1) s u = (obs1, s1, u1)"
    by (cases "run (map Deliver ?us1) s u") auto
  have "length ?us1 \<le> length (empty u)" using len assms(5) by simp
  from run_fills [OF assms(1) this r1]
  have f: "outcomes_of obs1 =
             (if N = 0 then [] else Delivered True # replicate (N - 1) (Delivered False))"
    "accepted_of obs1 = ?us1" "polled_of obs1 = []" "filled u1 = empty u" "empty u1 = []"
    "inuse u1 = {}" "ndropped u1 = ndropped u"
    using len assms(2,3,5) by auto
  have "disjoint_pool u" using assms(2,3,4) by (simp add: disjoint_pool_def)
  from run_fifo [OF this r1] f(2,3) assms(2)
  have c: "map (elems s1) (filled u1) = ?us1" by simp
  let ?u2 = "u1\<lparr>ndropped := ndropped u1 + of_nat (length ?us2)\<rparr>"
  have r2: "run (map Deliver ?us2) s1 u1 = (map (\<lambda>upd. ODeliver upd Dropped) ?us2, s1, ?u2)"
    using run_drops [OF f(5)] .
  have "map Deliver us = map Deliver ?us1 @ map Deliver ?us2"
    by (simp add: map_append [symmetric] del: map_append)
  then have r: "run (map Deliver us) s u =
                  (obs1 @ map (\<lambda>upd. ODeliver upd Dropped) ?us2, s1, ?u2)"
    by (simp add: run_append r1 r2)
  have n: "ndropped ?u2 = ndropped u + of_nat K" using f(7) len by simp
  have d: "deliver upd s1 ?u2 = (Dropped, s1, ?u2\<lparr>ndropped := ndropped ?u2 + 1\<rparr>)" for upd
    by (rule deliver_dropped) (simp add: f(5))
  show ?thesis
    unfolding r prod.case
    using f(1,4,5,6) c n d len
    by (simp add: outcomes_of_append outcomes_of_drops unat_add_of_nat)
qed


text \<open>Four free buffers and six updates.\<close>

theorem C4_saturation_witness:
  "running ex_user \<and> filled ex_user = [] \<and> inuse ex_user = {} \<and> distinct (empty ex_user) \<and>
   length (empty ex_user) = 4 \<and> length ex_updates = 4 + 2 \<and>
   (case run (map Deliver ex_updates) ex_store ex_user of (obs, s', u') \<Rightarrow>
      outcomes_of obs =
        [Delivered True, Delivered False, Delivered False, Delivered False, Dropped, Dropped] \<and>
      filled u' = [103, 107, 111, 115] \<and>
      map (elems s') (filled u') = [ex_update 10, ex_update 20, ex_update 30, ex_update 40] \<and>
      empty u' = [] \<and> ndropped u' = 2 \<and> unat (ndropped u') = 2)"
proof -
  have h: "running ex_user" "filled ex_user = []" "inuse ex_user = {}"
    "distinct (empty ex_user)" "length (empty ex_user) = 4" "length ex_updates = 4 + 2"
    by (simp_all add: ex_user_def ex_updates_def)
  have n: "ndropped ex_user = 0" "empty ex_user = [103, 107, 111, 115]"
    "take 4 ex_updates = [ex_update 10, ex_update 20, ex_update 30, ex_update 40]"
    by (simp_all add: ex_user_def ex_updates_def)
  have rep: "replicate 3 (Delivered False) = [Delivered False, Delivered False, Delivered False]"
    "replicate 2 Dropped = [Dropped, Dropped]"
    by (simp_all add: eval_nat_numeral)
  obtain obs s' u' where r: "run (map Deliver ex_updates) ex_store ex_user = (obs, s', u')"
    by (cases "run (map Deliver ex_updates) ex_store ex_user") auto
  from C4_saturation [OF h, where s = ex_store]
  have c: "outcomes_of obs =
             (if (4::nat) = 0 then [] else Delivered True # replicate (4 - 1) (Delivered False))
             @ replicate 2 Dropped"
    "filled u' = empty ex_user" "map (elems s') (filled u') = take 4 ex_updates"
    "empty u' = []" "ndropped u' = ndropped ex_user + of_nat 2"
    "unat (ndropped ex_user) + 2 < 2 ^ 64 \<longrightarrow> unat (ndropped u') = unat (ndropped ex_user) + 2"
    unfolding r prod.case by blast+
  from c(1) have c1: "outcomes_of obs =
      [Delivered True, Delivered False, Delivered False, Delivered False, Dropped, Dropped]"
    by (simp add: rep)
  from c(6) have c6: "unat (ndropped u') = 2" by (simp add: n)
  from c(5) have c5: "ndropped u' = 2" by (simp add: n)
  show ?thesis
    unfolding r prod.case using h c1 c(2,3,4) c5 c6 by (simp add: n)
qed

subsection \<open>Wakeups\<close>

lemma wakeups_of_Cons: "wakeups_of (ob # obs) = wakeups_of [ob] + wakeups_of obs"
  by (cases "(ob # obs)" rule: wakeups_of.cases) auto

lemma step_wakeup:
  assumes "step x s u = (ob, s1, u1)"
  shows "wakeups_of [ob] \<le> (if filled u = [] then 1 else 0)"
  using assms by (cases x s u rule: step_cases) (auto simp: destroy_def)

lemma wakeups_bound:
  "nonempty_between ops s u \<Longrightarrow> run ops s u = (obs, s', u') \<Longrightarrow>
   wakeups_of obs \<le> (if filled u = [] then 1 else 0)"
proof (induction ops arbitrary: s u obs)
  case Nil
  then show ?case by simp
next
  case (Cons x xs)
  from Cons.prems(2) obtain ob s1 u1 obs1 where
    st: "step x s u = (ob, s1, u1)" and r: "run xs s1 u1 = (obs1, s', u')" and
    o: "obs = ob # obs1"
    by (rule run_Cons_split)
  have w: "wakeups_of [ob] \<le> (if filled u = [] then 1 else 0)"
    using step_wakeup [OF st] .
  show ?case
  proof (cases xs)
    case Nil
    with r have "obs1 = []" by simp
    with w o show ?thesis by simp
  next
    case (Cons y ys)
    with Cons.prems(1) st have ne: "filled u1 \<noteq> []" and nb: "nonempty_between xs s1 u1"
      by simp_all
    from Cons.IH [OF nb r] ne have "wakeups_of obs1 = 0" by simp
    with w show ?thesis by (simp add: o wakeups_of_Cons [of ob obs1])
  qed
qed

lemma notify_one_live:
  assumes "req u = Some r"
  shows "notify_one upd s u =
           (case deliver upd s u of (out, s1, u1) \<Rightarrow>
              if out = Delivered True
              then Inr (s1, u1\<lparr>nwakeups := nwakeups u1 + 1\<rparr>, [ReqMonitorEvent r (weakref u)])
              else Inr (s1, u1, []))"
  using assms by (auto simp: notify_one_def split: prod.splits outcome.splits bool.splits)

text \<open>C5, for the wakeups \<open>monitorEvent\<close> sends. A delivery that is accepted asks for
  a wakeup exactly when \<open>filled\<close> was empty before the push; for a user with a live
  requester the loop body calls \<open>req->monitorEvent\<close> exactly when the user is running,
  has a free buffer and \<open>filled\<close> is empty, and not otherwise. Over a sequence of
  deliveries, polls, releases, stops and destroys during which \<open>filled\<close> does not
  become empty (but possibly with the last call), at most one delivery asks for a
  wakeup, and none when \<open>filled\<close> was not empty at the start.\<close>

theorem C5_wakeup_on_edge:
  "(running u \<and> empty u \<noteq> [] \<longrightarrow> fst (deliver upd s u) = Delivered (filled u = [])) \<and>
   (req u = Some r \<longrightarrow>
      (case notify_one upd s u of
         Inl err \<Rightarrow> False
       | Inr (s1, u1, cbs) \<Rightarrow>
           cbs = (if running u \<and> empty u \<noteq> [] \<and> filled u = []
                  then [ReqMonitorEvent r (weakref u)] else []))) \<and>
   (nonempty_between ops s u \<longrightarrow>
      (case run ops s u of (obs, s', u') \<Rightarrow>
         wakeups_of obs \<le> (if filled u = [] then 1 else 0)))"
proof (intro conjI impI)
  assume "running u \<and> empty u \<noteq> []"
  then show "fst (deliver upd s u) = Delivered (filled u = [])"
    by (simp add: deliver_delivered)
next
  assume r: "req u = Some r"
  show "case notify_one upd s u of
         Inl err \<Rightarrow> False
       | Inr (s1, u1, cbs) \<Rightarrow>
           cbs = (if running u \<and> empty u \<noteq> [] \<and> filled u = []
                  then [ReqMonitorEvent r (weakref u)] else [])"
  proof (cases "running u \<and> empty u \<noteq> []")
    case True
    then show ?thesis by (simp add: notify_one_live [OF r] deliver_delivered)
  next
    case False
    then have "\<not> running u \<or> empty u = []" by simp
    from deliver_dropped [OF this] False show ?thesis
      by (simp add: notify_one_live [OF r])
  qed
next
  assume nb: "nonempty_between ops s u"
  obtain obs s' u' where r: "run ops s u = (obs, s', u')" by (cases "run ops s u") auto
  from wakeups_bound [OF nb r] r
  show "case run ops s u of (obs, s', u') \<Rightarrow>
         wakeups_of obs \<le> (if filled u = [] then 1 else 0)"
    by simp
qed

text \<open>Three deliveries and three polls from an empty \<open>filled\<close>; the last poll empties
  it again.\<close>

theorem C5_wakeup_on_edge_witness:
  "running ex_user \<and> empty ex_user \<noteq> [] \<and> req ex_user = Some 60 \<and>
   nonempty_between ex_ops5 ex_store ex_user \<and>
   fst (deliver (ex_update 10) ex_store ex_user) = Delivered True \<and>
   (case notify_one (ex_update 10) ex_store ex_user of
      Inl err \<Rightarrow> False
    | Inr (s1, u1, cbs) \<Rightarrow> cbs = [ReqMonitorEvent 60 50]) \<and>
   (case run ex_ops5 ex_store ex_user of (obs, s', u') \<Rightarrow> wakeups_of obs \<le> 1)"
proof -
  have h: "running ex_user \<and> empty ex_user \<noteq> []" "req ex_user = Some 60"
    "filled ex_user = []" "weakref ex_user = 50"
    by (simp_all add: ex_user_def)
  have nb: "nonempty_between ex_ops5 ex_store ex_user"
    by (simp add: ex_ops5_def ex_user_def ex_store_def deliver_def poll_def Let_def)
  from C5_wakeup_on_edge [where u = ex_user and upd = "ex_update 10" and s = ex_store
      and r = 60 and ops = ex_ops5] h nb
  show ?thesis by (auto split: sum.splits)
qed

text \<open>The requester's \<open>monitorEvent\<close> is also called by \<open>start\<close>, whenever the entry
  has a last value. Two \<open>start\<close> calls on a new user make two such calls, and \<open>filled\<close>
  is not empty from the first call on.\<close>

theorem C5_counterexample:
  "case start ex_entry ex_store (MonitorUser_new 50 (Some 60) 0) of
     (st1, s1, u1, cbs1) \<Rightarrow>
       (case start ex_entry s1 u1 of
          (st2, s2, u2, cbs2) \<Rightarrow>
            cbs1 = [ReqMonitorEvent 60 50] \<and> filled u1 = [103] \<and>
            cbs2 = [ReqMonitorEvent 60 50] \<and> filled u2 = [103, 119])"
proof -
  let ?u = "MonitorUser_new 50 (Some 60) 0"
  have e: "isSuccess (startresult ex_entry)" "lastval ex_entry = Some 10"
    by (simp_all add: ex_entry_def Status_Ok_def)
  have u: "req ?u = Some 60" "filled ?u = []" "weakref ?u = 50"
    by (simp_all add: MonitorUser_new_def)
  from start_seeded [OF u(1) e, of ex_store] obtain s1 where
    1: "start ex_entry ex_store ?u =
          (Status_Ok, s1,
           ?u\<lparr>filled := filled ?u @ [brk ex_store + 3],
               empty := [brk ex_store + 7, brk ex_store + 11, brk ex_store + 15],
               running := True\<rparr>,
           [ReqMonitorEvent 60 (weakref ?u)])" and b: "brk s1 = brk ex_store + 16"
    by blast
  let ?u1 = "?u\<lparr>filled := filled ?u @ [brk ex_store + 3],
               empty := [brk ex_store + 7, brk ex_store + 11, brk ex_store + 15],
               running := True\<rparr>"
  have u1: "req ?u1 = Some 60" by (simp add: u)
  from start_seeded [OF u1 e, of s1] obtain s2 where
    2: "start ex_entry s1 ?u1 =
          (Status_Ok, s2,
           ?u1\<lparr>filled := filled ?u1 @ [brk s1 + 3],
               empty := [brk s1 + 7, brk s1 + 11, brk s1 + 15],
               running := True\<rparr>,
           [ReqMonitorEvent 60 (weakref ?u1)])"
    by blast
  show ?thesis
    unfolding 1 prod.case 2 by (simp add: u b ex_store_def)
qed

subsection \<open>Release\<close>

text \<open>C6. \<open>release\<close> of a pointer that is not in \<open>inuse\<close> throws
  \<open>std::invalid_argument\<close> and leaves the user as it was. \<open>release\<close> of a pointer in
  \<open>inuse\<close> takes it out of \<open>inuse\<close> and appends it to the free queue, \<open>filled\<close> is
  untouched; a running user then accepts the next delivery, and into this very buffer
  when it had no other free one.\<close>

theorem C6_release:
  "(e \<notin> inuse u \<longrightarrow>
      release e u = (Inl (invalid_argument ''Can't release MonitorElement not in use''), u)) \<and>
   (e \<in> inuse u \<longrightarrow>
      (case release e u of (res, u') \<Rightarrow>
         res = Inr () \<and> inuse u' = inuse u - {e} \<and> empty u' = empty u @ [e] \<and>
         filled u' = filled u \<and>
         (running u \<longrightarrow>
            (case deliver upd s u' of (out, s1, u1) \<Rightarrow>
               out = Delivered (filled u = []) \<and>
               (empty u = [] \<longrightarrow> filled u1 = filled u @ [e] \<and> elems s1 e = upd)))))"
  by (auto simp: release_def deliver_def Let_def elem_overwrite)


text \<open>A user with two lent buffers and no free one: a foreign pointer, then a lent one.\<close>

theorem C6_release_witness:
  "103 \<in> inuse ex_lent \<and> 999 \<notin> inuse ex_lent \<and> running ex_lent \<and> empty ex_lent = [] \<and>
   release 999 ex_lent =
     (Inl (invalid_argument ''Can't release MonitorElement not in use''), ex_lent) \<and>
   (case release 103 ex_lent of (res, u') \<Rightarrow>
      res = Inr () \<and> inuse u' = {111} \<and> empty u' = [103] \<and> filled u' = [107] \<and>
      (case deliver (ex_update 20) ex_store u' of (out, s1, u1) \<Rightarrow>
         out = Delivered False \<and> filled u1 = [107, 103] \<and> elems s1 103 = ex_update 20))"
proof -
  have h: "103 \<in> inuse ex_lent" "999 \<notin> inuse ex_lent" "running ex_lent" "empty ex_lent = []"
    "filled ex_lent = [107]" "inuse ex_lent - {103} = {111}"
    by (auto simp: ex_lent_def)
  from C6_release [where e = 999 and u = ex_lent] h(2)
  have bad: "release 999 ex_lent =
     (Inl (invalid_argument ''Can't release MonitorElement not in use''), ex_lent)"
    by blast
  from C6_release [where e = 103 and u = ex_lent and upd = "ex_update 20" and s = ex_store] h
  have good: "case release 103 ex_lent of (res, u') \<Rightarrow>
      res = Inr () \<and> inuse u' = {111} \<and> empty u' = [103] \<and> filled u' = [107] \<and>
      (case deliver (ex_update 20) ex_store u' of (out, s1, u1) \<Rightarrow>
         out = Delivered False \<and> filled u1 = [107, 103] \<and> elems s1 103 = ex_update 20)"
    by (auto split: prod.splits)
  from h bad good show ?thesis by blast
qed

subsection \<open>The last value of the entry\<close>








subsection \<open>What crosses the fan-out\<close>

lemma new_element_elems_below:
  "a < brk s \<Longrightarrow> elems (snd (new_element td s)) a = elems s a"
  by (simp add: new_element_def Let_def)

lemma reset_all_elems_below:
  "a < brk s \<Longrightarrow> elems (snd (reset_all td slots s)) a = elems s a"
proof (induction slots arbitrary: s)
  case Nil
  show ?case by simp
next
  case (Cons slot slots)
  from Cons.prems have "a < brk (snd (new_element td s))" by (simp add: new_element_simps)
  from Cons.IH [OF this] Cons.prems show ?case
    by (simp only: reset_all_Cons snd_conv new_element_elems_below)
qed

lemma start_elems_below:
  assumes "a < brk s"
  shows "elems (fst (snd (start e s u))) a = elems s a"
  using assms
  by (auto simp: start_def case_prod_beta Let_def reset_all_resize4 reset_all_elems_below
      split: option.splits)

text \<open>A delivery moves a buffer inside one user; the fan-out leaves the set of buffers
  of every user as it was.\<close>

lemma deliver_pool: "pool (snd (snd (deliver upd s u))) = pool u"
proof (cases "running u \<and> empty u \<noteq> []")
  case True
  then obtain a as where "empty u = a # as" by (cases "empty u") auto
  with True show ?thesis by (auto simp: deliver_delivered pool_def)
next
  case False
  then have "\<not> running u \<or> empty u = []" by simp
  from deliver_dropped [OF this] show ?thesis by (simp add: pool_def)
qed

lemma notify_one_pool:
  assumes "notify_one upd s u = Inr (s1, u1, cbs)"
  shows "pool u1 = pool u"
proof -
  obtain out s2 u2 where d: "deliver upd s u = (out, s2, u2)" by (cases "deliver upd s u") auto
  with deliver_pool [of upd s u] have p: "pool u2 = pool u" by simp
  show ?thesis
  proof (cases out)
    case Dropped
    with assms d have "u1 = u2" by (simp add: notify_one_def)
    with p show ?thesis by simp
  next
    case (Delivered b)
    show ?thesis
    proof (cases b)
      case False
      with assms d Delivered have "u1 = u2" by (simp add: notify_one_def)
      with p show ?thesis by simp
    next
      case True
      with assms d Delivered have "u1 = u2\<lparr>nwakeups := nwakeups u2 + 1\<rparr>"
        by (cases "req u") (simp_all add: notify_one_def)
      then have "pool u1 = pool u2" by (simp add: pool_def)
      with p show ?thesis by simp
    qed
  qed
qed

lemma notify_all_pools:
  "notify_all upd s us = Inr (s', us', cbs) \<Longrightarrow> map pool us' = map pool us"
proof (induction us arbitrary: s s' us' cbs)
  case Nil
  then show ?case by simp
next
  case (Cons u us)
  from Cons.prems obtain s1 u1 cbs1 where 1: "notify_one upd s u = Inr (s1, u1, cbs1)"
    by (auto split: sum.splits)
  with Cons.prems obtain us2 cbs2 where 2: "notify_all upd s1 us = Inr (s', us2, cbs2)"
    and u: "us' = u1 # us2"
    by (auto split: sum.splits)
  from Cons.IH [OF 2] notify_one_pool [OF 1] u show ?case by simp
qed

lemma drain_pools:
  "drain upds e s = Inr (e', s', cbs) \<Longrightarrow> map pool (interested e') = map pool (interested e)"
proof (induction upds arbitrary: e s cbs)
  case Nil
  then show ?case by simp
next
  case (Cons upd upds)
  let ?e1 = "e\<lparr>lastval := pvStructurePtr upd, nevents_e := nevents_e e + 1\<rparr>"
  from Cons.prems obtain s1 us1 cbs1 where
    1: "notify_all upd s (interested ?e1) = Inr (s1, us1, cbs1)"
    by (auto simp: Let_def split: sum.splits)
  with Cons.prems obtain cbs2 where
    2: "drain upds (?e1\<lparr>interested := us1\<rparr>) s1 = Inr (e', s', cbs2)"
    by (auto simp: Let_def split: sum.splits)
  from Cons.IH [OF 2] notify_all_pools [OF 1] show ?case by simp
qed

lemma monitorEvent_pools:
  "monitorEvent monitor e s = Inr (e', s', cbs) \<Longrightarrow>
   map pool (interested e') = map pool (interested e)"
  using drain_pools [of "pending monitor" "e\<lparr>nwakeups_e := nwakeups_e e + 1\<rparr>" s e' s' cbs]
  by (simp add: monitorEvent_def)

text \<open>C2, as the code has it. A delivery that is accepted takes the element at the front
  of the user's own free queue, overwrites its three pointers with the update's and
  appends it to \<open>filled\<close>; no other element of the store changes. The payload is not
  copied: the element now points to the structure the update points to (which is also
  what \<open>lastval\<close> points to, see C10). \<open>start\<close> on a connected entry with a last value
  appends a newly allocated element (no element below the old \<open>brk\<close> changes) whose
  \<open>pvStructurePtr\<close> is the entry's \<open>lastval\<close> pointer itself. A whole \<open>monitorEvent\<close>
  leaves every user with the set of elements it had: no element passes from one user
  to another.\<close>

theorem C2_payload_pointer_shared:
  "(running u \<and> empty u \<noteq> [] \<longrightarrow>
      (case deliver upd s u of
         (out, s1, u1) \<Rightarrow>
           filled u1 = filled u @ [hd (empty u)] \<and> empty u1 = tl (empty u) \<and>
           elems s1 (hd (empty u)) = upd \<and>
           (\<forall>a. a \<noteq> hd (empty u) \<longrightarrow> elems s1 a = elems s a))) \<and>
   (req u = Some r \<and> isSuccess (startresult e) \<and> typedesc e \<noteq> None \<and>
    lastval e = Some p \<longrightarrow>
      (case start e s u of
         (st, s1, u1, cbs) \<Rightarrow>
           filled u1 = filled u @ [brk s + 3] \<and>
           pvStructurePtr (elems s1 (brk s + 3)) = lastval e \<and>
           (\<forall>a < brk s. elems s1 a = elems s a))) \<and>
   (case monitorEvent monitor e s of
      Inl err \<Rightarrow> True
    | Inr (e', s', cbs) \<Rightarrow> map pool (interested e') = map pool (interested e))"
proof (intro conjI impI)
  show "case monitorEvent monitor e s of
      Inl err \<Rightarrow> True
    | Inr (e', s', cbs) \<Rightarrow> map pool (interested e') = map pool (interested e)"
    by (auto split: sum.splits dest: monitorEvent_pools)
next
  assume "running u \<and> empty u \<noteq> []"
  then show "case deliver upd s u of
         (out, s1, u1) \<Rightarrow>
           filled u1 = filled u @ [hd (empty u)] \<and> empty u1 = tl (empty u) \<and>
           elems s1 (hd (empty u)) = upd \<and>
           (\<forall>a. a \<noteq> hd (empty u) \<longrightarrow> elems s1 a = elems s a)"
    by (simp add: deliver_delivered)
next
  assume h: "req u = Some r \<and> isSuccess (startresult e) \<and> typedesc e \<noteq> None \<and>
    lastval e = Some p"
  then have h': "req u = Some r" "isSuccess (startresult e)" "lastval e = Some p" by simp_all
  from start_seeded [OF h', of s] obtain s1 where
    1: "start e s u =
          (Status_Ok, s1,
           u\<lparr>filled := filled u @ [brk s + 3], empty := [brk s + 7, brk s + 11, brk s + 15],
             running := True\<rparr>,
           [ReqMonitorEvent r (weakref u)])"
    and p: "pvStructurePtr (elems s1 (brk s + 3)) = Some p" by blast
  have "elems s1 a = elems s a" if "a < brk s" for a
    using start_elems_below [OF that, of e u] by (simp add: 1)
  with p h'(3) show "case start e s u of
         (st, s1, u1, cbs) \<Rightarrow>
           filled u1 = filled u @ [brk s + 3] \<and>
           pvStructurePtr (elems s1 (brk s + 3)) = lastval e \<and>
           (\<forall>a < brk s. elems s1 a = elems s a)"
    by (simp add: 1)
qed

text \<open>One update delivered to two users, and a start on the entry that has seen the
  structure at address 10.\<close>

theorem C2_payload_pointer_shared_witness:
  "running ex_user \<and> empty ex_user \<noteq> [] \<and> running ex_user2 \<and> empty ex_user2 \<noteq> [] \<and>
   req ex_user2 = Some 61 \<and> isSuccess (startresult ex_entry) \<and>
   typedesc ex_entry \<noteq> None \<and> lastval ex_entry = Some 10 \<and>
   (case deliver (ex_update 20) ex_store ex_user of
      (out, s1, u1) \<Rightarrow>
        filled u1 = [103] \<and> pvStructurePtr (elems s1 103) = Some 20 \<and>
        (case deliver (ex_update 20) s1 ex_user2 of
           (out2, s2, u2) \<Rightarrow>
             filled u2 = [203] \<and> pvStructurePtr (elems s2 203) = Some 20 \<and>
             pvStructurePtr (elems s2 103) = Some 20)) \<and>
   (case start ex_entry ex_store ex_user2 of
      (st, s1, u1, cbs) \<Rightarrow> filled u1 = [103] \<and> pvStructurePtr (elems s1 103) = Some 10) \<and>
   (case monitorEvent ex_monitor ex_entry_live ex_store of
      Inl err \<Rightarrow> False
    | Inr (e', s', cbs) \<Rightarrow> map pool (interested e') = [{103, 107, 111, 115}, {203, 207}])"
proof -
  obtain e3 s3 cbs3 where
    r3: "monitorEvent ex_monitor ex_entry_live ex_store = Inr (e3, s3, cbs3)"
    by (simp add: ex_entry_def ex_entry_live_def ex_user_def ex_user2_def ex_monitor_def
        ex_store_def ex_update_def Status_Ok_def monitorEvent_def notify_one_def deliver_def Let_def)
  have p0: "map pool (interested ex_entry_live) = [{103, 107, 111, 115}, {203, 207}]"
    by (simp add: ex_entry_def ex_entry_live_def ex_user_def ex_user2_def ex_monitor_def
        ex_store_def ex_update_def Status_Ok_def pool_def)
  from C2_payload_pointer_shared [where monitor = ex_monitor and e = ex_entry_live
      and s = ex_store]
  have d: "map pool (interested e3) = [{103, 107, 111, 115}, {203, 207}]"
    unfolding r3 using p0 by simp
  have h: "running ex_user \<and> empty ex_user \<noteq> []" "running ex_user2 \<and> empty ex_user2 \<noteq> []"
    "req ex_user2 = Some 61 \<and> isSuccess (startresult ex_entry) \<and>
     typedesc ex_entry \<noteq> None \<and> lastval ex_entry = Some 10"
    by (simp_all add: ex_entry_def ex_entry_live_def ex_user_def ex_user2_def ex_monitor_def
        ex_store_def ex_update_def Status_Ok_def)
  have v: "hd (empty ex_user) = 103" "hd (empty ex_user2) = 203" "filled ex_user = []"
    "filled ex_user2 = []" "brk ex_store = 100" "pvStructurePtr (ex_update 20) = Some 20"
    by (simp_all add: ex_entry_def ex_entry_live_def ex_user_def ex_user2_def ex_monitor_def
        ex_store_def ex_update_def Status_Ok_def)
  obtain out s1 u1 where d1: "deliver (ex_update 20) ex_store ex_user = (out, s1, u1)"
    by (cases "deliver (ex_update 20) ex_store ex_user") auto
  obtain out2 s2 u2 where d2: "deliver (ex_update 20) s1 ex_user2 = (out2, s2, u2)"
    by (cases "deliver (ex_update 20) s1 ex_user2") auto
  from C2_payload_pointer_shared [where u = ex_user and upd = "ex_update 20" and s = ex_store]
    h(1)
  have a: "filled u1 = [103]" "elems s1 103 = ex_update 20"
    unfolding d1 by (simp_all add: v)
  from C2_payload_pointer_shared [where u = ex_user2 and upd = "ex_update 20" and s = s1]
    h(2)
  have b: "filled u2 = [203]" "elems s2 203 = ex_update 20" "elems s2 103 = elems s1 103"
    unfolding d2 by (simp_all add: v)
  from C2_payload_pointer_shared [where u = ex_user2 and e = ex_entry and s = ex_store
      and r = 61 and p = 10] h(3)
  have c: "case start ex_entry ex_store ex_user2 of
      (st, s1, u1, cbs) \<Rightarrow> filled u1 = [103] \<and> pvStructurePtr (elems s1 103) = Some 10"
    by (auto simp: v split: prod.splits)
  show ?thesis
    unfolding d1 d2 r3 sum.case prod.case using h a b c d by (simp add: v)
qed

text \<open>Two users receive two updates. Each keeps its own elements (103, 107 and 203, 207),
  but the second element of each points to the one structure at address 30, and so does
  \<open>lastval\<close>.\<close>

theorem C2_counterexample:
  "case monitorEvent ex_monitor ex_entry_live ex_store of
     Inl err \<Rightarrow> False
   | Inr (e', s', cbs) \<Rightarrow>
       map filled (interested e') = [[103, 107], [203, 207]] \<and>
       pvStructurePtr (elems s' 107) = Some 30 \<and>
       pvStructurePtr (elems s' 207) = Some 30 \<and>
       lastval e' = Some 30"
  by (simp add: ex_entry_def ex_entry_live_def ex_user_def ex_user2_def ex_monitor_def
      ex_store_def ex_update_def Status_Ok_def monitorEvent_def notify_one_def deliver_def Let_def)

subsection \<open>Starting twice\<close>

lemma start_plain_brk:
  "brk (snd (reset_all td (resize 4 xs) s)) = brk s + 16"
  by (simp add: reset_all_brk resize_length)




subsection \<open>The connection outcome\<close>






subsection \<open>Dead requesters\<close>

text \<open>The calls \<open>monitorConnect\<close> makes: one for each user whose requester is alive, in
  the order of the users.\<close>

lemma connect_all_live:
  "connect_all st td us =
     map (\<lambda>u. ReqMonitorConnect (the (req u)) st (weakref u) td) (filter (\<lambda>u. req u \<noteq> None) us)"
  by (induction us) (auto split: option.splits)


subsection \<open>The states the code builds\<close>

text \<open>The hypothesis of C3 and of the first half of C1, buffers pairwise different, holds
  of a new user, and is kept by every call on the user, \<open>start\<close> included: \<open>start\<close>
  allocates above \<open>brk\<close>, every buffer of the user lies below it, and the other calls
  do not allocate.\<close>

lemma new_disjoint_pool:
  "disjoint_pool (MonitorUser_new self r w) \<and> pool (MonitorUser_new self r w) = {}"
  by (simp add: MonitorUser_new_def disjoint_pool_def pool_def)

lemma step_brk:
  assumes "step x s u = (ob, s1, u1)"
  shows "brk s1 = brk s"
  using assms by (cases x s u rule: step_cases) (auto simp: destroy_def)

lemma run_brk: "run ops s u = (obs, s', u') \<Longrightarrow> brk s' = brk s"
proof (induction ops arbitrary: s u obs)
  case Nil
  then show ?case by simp
next
  case (Cons x xs)
  from Cons.prems obtain ob s1 u1 obs1 where
    st: "step x s u = (ob, s1, u1)" and r: "run xs s1 u1 = (obs1, s', u')"
    by (rule run_Cons_split)
  from Cons.IH [OF r] step_brk [OF st] show ?case by simp
qed

lemma start_keeps_disjoint:
  assumes "disjoint_pool u" and "\<forall>a \<in> pool u. a < brk s"
  shows "case start e s u of
           (st, s1, u1, cbs) \<Rightarrow> disjoint_pool u1 \<and> (\<forall>a \<in> pool u1. a < brk s1)"
proof (cases "req u")
  case None
  with assms show ?thesis by (simp add: start_dead)
next
  case (Some r)
  show ?thesis
  proof (cases "isSuccess (startresult e)")
    case False
    with Some assms show ?thesis by (simp add: start_failed)
  next
    case True
    from assms(2) have below: "a < brk s" if "a \<in> set (filled u) \<or> a \<in> inuse u" for a
      using that by (auto simp: pool_def)
    then have f: "a \<in> set (filled u) \<Longrightarrow> a < brk s + k"
      and i: "a \<in> inuse u \<Longrightarrow> a < brk s + k" for a k
      by (auto simp: trans_less_add1)
    show ?thesis
    proof (cases "lastval e")
      case None
      from assms(1) show ?thesis
        unfolding start_plain [OF Some True None] prod.case
        using f [of _ 0] i [of _ 0]
        by (auto simp: disjoint_pool_def pool_def start_plain_brk dest: f i)
    next
      case (Some p)
      from start_seeded [OF \<open>req u = Some r\<close> True Some, of s] obtain s1 where
        1: "start e s u =
              (Status_Ok, s1,
               u\<lparr>filled := filled u @ [brk s + 3],
                 empty := [brk s + 7, brk s + 11, brk s + 15], running := True\<rparr>,
               [ReqMonitorEvent r (weakref u)])"
        and b: "brk s1 = brk s + 16" by blast
      from assms(1) show ?thesis
        unfolding 1 prod.case
        using f [of _ 0] i [of _ 0]
        by (auto simp: disjoint_pool_def pool_def b dest: f i)
    qed
  qed
qed

end
